theory Spec2Isabelle
  imports Complex_Main
begin

section \<open>Shape utilities of pymc.distributions.shape_utils\<close>

text \<open>
  A shallow embedding of the shape-resolution functions of
  \<^verbatim>\<open>src/pymc/distributions/shape_utils.py\<close>. Python exceptions are values of
  the type \<open>error\<close>; a function that may raise returns \<open>error + 'a\<close>, with
  \<open>Inl\<close> for the exception. Python's \<^verbatim>\<open>None\<close> is \<open>None\<close> of an
  option type.
\<close>

subsection \<open>Data model\<close>

text \<open>
  An element of a \<^verbatim>\<open>dims\<close> tuple: a dimension name, \<^verbatim>\<open>None\<close> or
  \<^verbatim>\<open>Ellipsis\<close>.
\<close>

datatype dim = DName string | DNone | DEllipsis

text \<open>
  An element of a \<^verbatim>\<open>shape\<close> or \<^verbatim>\<open>size\<close> tuple: an integer, a symbolic
  scalar (a \<^verbatim>\<open>TensorVariable\<close>, known by its name) or \<^verbatim>\<open>Ellipsis\<close>.
\<close>

datatype shape_elem = SInt int | SVar string | SEllipsis

text \<open>The \<^verbatim>\<open>ValueError\<close> messages of the module.\<close>

datatype value_error =
    NoBroadcast          \<comment> \<open>"Supplied shapes ... do not broadcast together"\<close>
  | CannotBroadcast      \<comment> \<open>"Cannot broadcast provided shapes ... given size: ..."\<close>
  | BadParameterType     \<comment> \<open>"The ... parameter must be a tuple, ..."\<close>
  | EllipsisNotLast      \<comment> \<open>"Ellipsis in ... may only appear in the last position"\<close>
  | EllipsisInSize       \<comment> \<open>"The `size` parameter cannot contain an Ellipsis"\<close>

datatype error =
    TypeError
  | ValueError value_error
  | KeyError "dim set"             \<comment> \<open>the dimensions the message names\<close>
  | ShapeError int int             \<comment> \<open>actual and expected dimensionality\<close>

text \<open>
  The values \<^verbatim>\<open>_check_shape_type\<close> iterates over after \<^verbatim>\<open>np.atleast_1d\<close>:
  an integer, a finite float (its exact rational value), a non-finite float, a
  string or other non-numeric object, or a nested array (one with \<^verbatim>\<open>ndim > 0\<close>).
\<close>

datatype entry = EInt int | EFloat rat | ENonFinite | ENonNumeric string | ENested

subsection \<open>Python slices\<close>

text \<open>
  \<^verbatim>\<open>xs[:k]\<close>: the first \<open>k\<close> elements when \<open>k \<ge> 0\<close>; for a negative \<open>k\<close>,
  all but the last \<open>-k\<close> elements.
\<close>

definition slice_to :: "int \<Rightarrow> 'a list \<Rightarrow> 'a list" where
  "slice_to k xs = (if 0 \<le> k then take (nat k) xs else take (length xs - nat (- k)) xs)"

subsection \<open>Checking a shape\<close>

text \<open>\<^verbatim>\<open>int(s)\<close> of a finite float truncates towards zero.\<close>

definition py_int :: "rat \<Rightarrow> int" where
  "py_int r = (if 0 \<le> r then \<lfloor>r\<rfloor> else \<lceil>r\<rceil>)"

text \<open>
  One iteration of the loop of \<^verbatim>\<open>_check_shape_type\<close>. Every exception raised
  in the loop (also the \<^verbatim>\<open>ValueError\<close> or \<^verbatim>\<open>OverflowError\<close> of
  \<^verbatim>\<open>int(s)\<close>) is caught and raised again as \<^verbatim>\<open>TypeError\<close>.
\<close>

fun check_entry :: "entry \<Rightarrow> error + int" where
  "check_entry (EInt n) = Inr n"
| "check_entry (EFloat r) = (let o' = py_int r in if of_int o' \<noteq> r then Inl TypeError else Inr o')"
| "check_entry ENonFinite = Inl TypeError"
| "check_entry (ENonNumeric s) = Inl TypeError"
| "check_entry ENested = Inl TypeError"

fun check_shape_type :: "entry list \<Rightarrow> error + int list" where
  "check_shape_type [] = Inr []"
| "check_shape_type (s # shape) =
     (case check_entry s of
        Inl e \<Rightarrow> Inl e
      | Inr o' \<Rightarrow> (case check_shape_type shape of Inl e \<Rightarrow> Inl e | Inr out \<Rightarrow> Inr (o' # out)))"

subsection \<open>Broadcasting shapes\<close>

text \<open>The rule for one pair of dimension sizes; \<open>0\<close> marks an incompatible pair.\<close>

definition bcast_dim :: "int \<Rightarrow> int \<Rightarrow> int" where
  "bcast_dim i j = (if i = 1 then j else if j = 1 then i else if i = j then i else 0)"

text \<open>
  The body of the loop of \<^verbatim>\<open>shapes_broadcasting\<close> up to the test: the longer
  list becomes \<open>x\<close>, and its last \<open>length y\<close> elements are replaced.
\<close>

definition bcast_step :: "int list \<Rightarrow> int list \<Rightarrow> int list" where
  "bcast_step x y =
     (let (x, y) = (if length x < length y then (y, x) else (x, y)) in
      if 0 < length y
      then take (length x - length y) x @ map2 bcast_dim (drop (length x - length y) x) y
      else x)"

text \<open>\<^verbatim>\<open>all(x)\<close>: no element is zero.\<close>

definition all_nonzero :: "int list \<Rightarrow> bool" where
  "all_nonzero x = list_all (\<lambda>i. i \<noteq> 0) x"

text \<open>
  The loop over \<^verbatim>\<open>args[1:]\<close>. The result \<open>Inr None\<close> is the \<^verbatim>\<open>None\<close> the
  function returns when broadcasting fails and \<^verbatim>\<open>raise_exception\<close> is false.
\<close>

fun broadcast_loop :: "int list \<Rightarrow> entry list list \<Rightarrow> bool \<Rightarrow> error + int list option" where
  "broadcast_loop x [] raise_exception = Inr (Some x)"
| "broadcast_loop x (arg # args) raise_exception =
     (case check_shape_type arg of
        Inl e \<Rightarrow> Inl e
      | Inr y \<Rightarrow>
          (let x' = bcast_step x y in
           if \<not> all_nonzero x'
           then (if raise_exception then Inl (ValueError NoBroadcast) else Inr None)
           else broadcast_loop x' args raise_exception))"

definition shapes_broadcasting :: "entry list list \<Rightarrow> bool \<Rightarrow> error + int list option" where
  "shapes_broadcasting args raise_exception =
     (case args of
        [] \<Rightarrow> Inr (Some [])
      | a # rest \<Rightarrow>
          (case check_shape_type a of
             Inl e \<Rightarrow> Inl e
           | Inr x \<Rightarrow> broadcast_loop x rest raise_exception))"

subsection \<open>Broadcasting the shapes of samples\<close>

text \<open>The list comprehension \<^verbatim>\<open>[_check_shape_type(s) for s in shapes]\<close>.\<close>

fun check_all :: "entry list list \<Rightarrow> error + int list list" where
  "check_all [] = Inr []"
| "check_all (s # shapes) =
     (case check_shape_type s of
        Inl e \<Rightarrow> Inl e
      | Inr t \<Rightarrow> (case check_all shapes of Inl e \<Rightarrow> Inl e | Inr ts \<Rightarrow> Inr (t # ts)))"

text \<open>
  A sample shape without the \<^verbatim>\<open>size\<close> prepend:
  \<^verbatim>\<open>s[len(_size):] if _size == s[:min([len(_size), len(s)])] else s\<close>.
\<close>

definition sp_shape :: "int list \<Rightarrow> int list \<Rightarrow> int list" where
  "sp_shape sz s = (if sz = take (min (length sz) (length s)) s then drop (length sz) s else s)"

text \<open>
  The shape with the broadcasting axes added in the middle; \<open>bs\<close> is the broadcast
  of the shapes without the prepend and \<open>sp\<close> this shape without it. A tuple
  repeated a negative number of times is empty, as the truncated difference gives.
\<close>

definition p_shape :: "int list \<Rightarrow> int list \<Rightarrow> int list \<Rightarrow> int list \<Rightarrow> int list" where
  "p_shape sz bs shape sp =
     (if sz = take (length sz) shape
      then take (length sz) shape @ replicate (length bs - length sp) 1 @ drop (length sz) shape
      else shape)"

text \<open>
  \<^verbatim>\<open>size\<close> is \<^verbatim>\<open>None\<close> or the tuple \<^verbatim>\<open>to_tuple(size)\<close> (an integer
  \<open>n\<close> is the tuple \<open>[n]\<close>).
\<close>

definition broadcast_dist_samples_shape ::
  "entry list list \<Rightarrow> int list option \<Rightarrow> error + int list option" where
  "broadcast_dist_samples_shape shapes size' =
     (case size' of
        None \<Rightarrow>
          (case shapes_broadcasting shapes False of
             Inl e \<Rightarrow> Inl e
           | Inr None \<Rightarrow> Inl (ValueError CannotBroadcast)
           | Inr (Some broadcasted_shape) \<Rightarrow> Inr (Some broadcasted_shape))
      | Some sz \<Rightarrow>
          (case check_all shapes of
             Inl e \<Rightarrow> Inl e
           | Inr shapes' \<Rightarrow>
               (let sp_shapes = map (sp_shape sz) shapes' in
                case shapes_broadcasting (map (map EInt) sp_shapes) True of
                  Inl (ValueError v) \<Rightarrow> Inl (ValueError CannotBroadcast)
                | Inl e \<Rightarrow> Inl e
                | Inr None \<Rightarrow> Inl TypeError
                | Inr (Some broadcast_shape) \<Rightarrow>
                    shapes_broadcasting
                      (map (map EInt) (map2 (p_shape sz broadcast_shape) shapes' sp_shapes))
                      True)))"

subsection \<open>Normalising user-provided dims, shape and size\<close>

text \<open>
  What a caller may pass as \<^verbatim>\<open>dims\<close>: \<^verbatim>\<open>None\<close>, a string, a list or
  tuple, or a value of any other type.
\<close>

datatype dims_arg = DimsNone | DimsStr string | DimsSeq "dim list" | DimsOther

definition convert_dims :: "dims_arg \<Rightarrow> error + dim list option" where
  "convert_dims dims =
     (case dims of
        DimsNone \<Rightarrow> Inr None
      | DimsOther \<Rightarrow> Inl (ValueError BadParameterType)
      | _ \<Rightarrow>
          (let dims' = (case dims of DimsStr s \<Rightarrow> [DName s] | DimsSeq ds \<Rightarrow> ds | _ \<Rightarrow> []) in
           if list_ex (\<lambda>d. d = DEllipsis) (slice_to (- 1) dims')
           then Inl (ValueError EllipsisNotLast)
           else Inr (Some dims')))"

text \<open>
  What a caller may pass as \<^verbatim>\<open>shape\<close> or \<^verbatim>\<open>size\<close>: \<^verbatim>\<open>None\<close>, an
  integer, a \<^verbatim>\<open>TensorVariable\<close> (its name and its \<^verbatim>\<open>ndim\<close>), a list or
  tuple, or a value of any other type.
\<close>

datatype shape_arg =
  ShapeNone | ShapeInt int | ShapeTensor string nat | ShapeSeq "shape_elem list" | ShapeOther

text \<open>The common first part of \<^verbatim>\<open>convert_shape\<close> and \<^verbatim>\<open>convert_size\<close>.\<close>

fun shape_tuple :: "shape_arg \<Rightarrow> error + shape_elem list" where
  "shape_tuple (ShapeInt n) = Inr [SInt n]"
| "shape_tuple (ShapeTensor v nd) =
     (if nd = 0 then Inr [SVar v] else Inl (ValueError BadParameterType))"
| "shape_tuple (ShapeSeq ss) = Inr ss"
| "shape_tuple ShapeOther = Inl (ValueError BadParameterType)"
| "shape_tuple ShapeNone = Inr []"

definition convert_shape :: "shape_arg \<Rightarrow> error + shape_elem list option" where
  "convert_shape shape =
     (if shape = ShapeNone then Inr None
      else (case shape_tuple shape of
              Inl e \<Rightarrow> Inl e
            | Inr shape' \<Rightarrow>
                if list_ex (\<lambda>s. s = SEllipsis) (slice_to (- 1) shape')
                then Inl (ValueError EllipsisNotLast)
                else Inr (Some shape')))"

definition convert_size :: "shape_arg \<Rightarrow> error + shape_elem list option" where
  "convert_size size' =
     (if size' = ShapeNone then Inr None
      else (case shape_tuple size' of
              Inl e \<Rightarrow> Inl e
            | Inr sz \<Rightarrow>
                if SEllipsis \<in> set sz
                then Inl (ValueError EllipsisInSize)
                else Inr (Some sz)))"

subsection \<open>Resizing from dims\<close>

text \<open>
  \<open>dim_lengths\<close> is the model's registry \<^verbatim>\<open>model.dim_lengths\<close>, keyed by
  dimension names. A dimension is known when it is a name with an entry there.
\<close>

fun known_dim :: "(string \<rightharpoonup> 'len) \<Rightarrow> dim \<Rightarrow> bool" where
  "known_dim dim_lengths (DName n) = (dim_lengths n \<noteq> None)"
| "known_dim dim_lengths DNone = False"
| "known_dim dim_lengths DEllipsis = False"

text \<open>
  \<^verbatim>\<open>tuple(model.dim_lengths[dname] for dname in dims[:ndim_resize])\<close>; a missing
  key raises \<^verbatim>\<open>KeyError\<close>.
\<close>

fun dim_length :: "(string \<rightharpoonup> 'len) \<Rightarrow> dim \<Rightarrow> error + 'len" where
  "dim_length dim_lengths (DName n) =
     (case dim_lengths n of None \<Rightarrow> Inl (KeyError {DName n}) | Some l \<Rightarrow> Inr l)"
| "dim_length dim_lengths d = Inl (KeyError {d})"

fun lookup_lengths :: "(string \<rightharpoonup> 'len) \<Rightarrow> dim list \<Rightarrow> error + 'len list" where
  "lookup_lengths dim_lengths [] = Inr []"
| "lookup_lengths dim_lengths (d # ds) =
     (case dim_length dim_lengths d of
        Inl e \<Rightarrow> Inl e
      | Inr l \<Rightarrow> (case lookup_lengths dim_lengths ds of Inl e \<Rightarrow> Inl e | Inr ls \<Rightarrow> Inr (l # ls)))"

definition resize_from_dims ::
  "dim list \<Rightarrow> int \<Rightarrow> (string \<rightharpoonup> 'len) \<Rightarrow> error + (int \<times> 'len list \<times> dim list)" where
  "resize_from_dims dims ndim_implied dim_lengths =
     (let dims' = (if DEllipsis \<in> set dims
                   then slice_to (- 1) dims @ replicate (nat ndim_implied) DNone
                   else dims);
          ndim_resize = int (length dims') - ndim_implied;
          unknowndim_resize_dims =
            set (filter (\<lambda>d. \<not> known_dim dim_lengths d) (slice_to ndim_resize dims'))
      in if unknowndim_resize_dims \<noteq> {} then Inl (KeyError unknowndim_resize_dims)
         else (case lookup_lengths dim_lengths (slice_to ndim_resize dims') of
                 Inl e \<Rightarrow> Inl e
               | Inr resize_shape \<Rightarrow> Inr (ndim_resize, resize_shape, dims')))"

subsection \<open>Finding the creation size\<close>

text \<open>
  The result is the tuple \<^verbatim>\<open>(create_size, ndim_expected, ndim_batch, ndim_supp)\<close>.
  \<^verbatim>\<open>ndim_supp\<close> defaults to \<^verbatim>\<open>None\<close>; arithmetic on \<^verbatim>\<open>None\<close> raises
  \<^verbatim>\<open>TypeError\<close>.
\<close>

definition find_size ::
  "shape_elem list option \<Rightarrow> shape_elem list option \<Rightarrow> int option \<Rightarrow>
   error + (shape_elem list option \<times> int option \<times> int option \<times> int option)" where
  "find_size shape size' ndim_supp =
     (case shape of
        Some sh \<Rightarrow>
          (if SEllipsis \<in> set sh then Inr (None, None, None, ndim_supp)
           else (let ndim_expected = int (length sh) in
                 case ndim_supp of
                   None \<Rightarrow> Inl TypeError
                 | Some supp \<Rightarrow>
                     (let ndim_batch = ndim_expected - supp in
                      Inr (Some (slice_to ndim_batch sh), Some ndim_expected, Some ndim_batch,
                           ndim_supp))))
      | None \<Rightarrow>
          (case size' of
             Some sz \<Rightarrow>
               (case ndim_supp of
                  None \<Rightarrow> Inl TypeError
                | Some supp \<Rightarrow>
                    (let ndim_expected = supp + int (length sz);
                         ndim_batch = ndim_expected - supp in
                     Inr (Some sz, Some ndim_expected, Some ndim_batch, ndim_supp)))
           | None \<Rightarrow> Inr (None, None, None, ndim_supp)))"

subsection \<open>Resizing after creation\<close>

text \<open>
  What \<^verbatim>\<open>maybe_resize\<close> does besides returning a variable: it calls
  \<^verbatim>\<open>rv_op\<close> to create the variable again, it calls \<^verbatim>\<open>change_rv_size\<close> with a
  new size (always with \<^verbatim>\<open>expand=True\<close>), and it emits a \<^verbatim>\<open>ShapeWarning\<close>
  whose message holds \<^verbatim>\<open>len(tuple(size))\<close>, \<^verbatim>\<open>ndim_supp\<close> and the actual
  dimensionality.
\<close>

datatype event = Recreate | Resize "shape_elem list" | Warn nat "int option" int

text \<open>
  The random variable is of an abstract type \<open>'rv\<close>: \<open>ndim\<close> reads its
  dimensionality, \<open>change_rv_size\<close> is the collaborator of \<^verbatim>\<open>pymc.aesaraf\<close>, and
  \<open>recreated\<close> is what \<^verbatim>\<open>rv_op(*dist_params, size=None, **kwargs)\<close> returns.
  The result is the returned variable and the events in the order they happen.
\<close>

definition maybe_resize ::
  "('rv \<Rightarrow> int) \<Rightarrow> ('rv \<Rightarrow> shape_elem list \<Rightarrow> 'rv) \<Rightarrow> 'rv \<Rightarrow> 'rv \<Rightarrow>
   int option \<Rightarrow> int option \<Rightarrow> int option \<Rightarrow>
   shape_elem list option \<Rightarrow> shape_elem list option \<Rightarrow> error + ('rv \<times> event list)" where
  "maybe_resize ndim change_rv_size rv_out recreated ndim_expected ndim_batch ndim_supp shape size' =
     (let ndim_actual = ndim rv_out;
          ndims_unexpected = (Some ndim_actual \<noteq> ndim_expected);
          resized =
            (case shape of
               None \<Rightarrow> Inr (rv_out, [])
             | Some sh \<Rightarrow>
                 if \<not> ndims_unexpected then Inr (rv_out, [])
                 else if SEllipsis \<in> set sh
                 then Inr (change_rv_size rv_out (slice_to (- 1) sh), [Resize (slice_to (- 1) sh)])
                 else (case ndim_expected of
                         None \<Rightarrow> Inl TypeError
                       | Some expected \<Rightarrow>
                           (let (rv, evs) =
                                  (if ndim recreated < expected
                                   then (let expand_shape = slice_to (expected - ndim recreated) sh
                                         in (change_rv_size recreated expand_shape,
                                             [Recreate, Resize expand_shape]))
                                   else (recreated, [Recreate]))
                            in if ndim rv \<noteq> expected
                               then (case (ndim_batch, ndim_supp) of
                                       (Some b, Some s) \<Rightarrow> Inl (ShapeError ndim_actual (b + s))
                                     | _ \<Rightarrow> Inl TypeError)
                               else Inr (rv, evs))))
      in case resized of
           Inl e \<Rightarrow> Inl e
         | Inr (rv, evs) \<Rightarrow>
             (case size' of
                Some sz \<Rightarrow>
                  if ndims_unexpected
                  then Inr (rv, evs @ [Warn (length sz) ndim_supp ndim_actual])
                  else Inr (rv, evs)
              | None \<Rightarrow> Inr (rv, evs)))"

section \<open>Reference notions\<close>

text \<open>
  The definitions of this section follow the words of the specification, not the
  code; the theorems below compare the code with them.
\<close>

subsection \<open>The leading elements of a tuple\<close>

text \<open>
  The leading \<open>k\<close> elements of a tuple: the first \<open>k\<close> of them, none when \<open>k\<close> is
  not positive, all of them when the tuple has fewer.
\<close>

definition leading :: "int \<Rightarrow> 'a list \<Rightarrow> 'a list" where
  "leading k xs = take (nat k) xs"

text \<open>The marker \<open>e\<close> appears in a position of \<open>xs\<close> that is not the final one.\<close>

definition ellipsis_before_last :: "'a \<Rightarrow> 'a list \<Rightarrow> bool" where
  "ellipsis_before_last e xs = (\<exists>i. i + 1 < length xs \<and> xs ! i = e)"

subsection \<open>NumPy broadcasting\<close>

text \<open>
  Shapes are aligned at their trailing dimension; position \<open>0\<close> is the last
  dimension. The rank of the result is the greatest rank of the inputs.
\<close>

definition rank :: "int list list \<Rightarrow> nat" where
  "rank shapes = fold max (map length shapes) 0"

text \<open>The sizes the inputs have at trailing position \<open>k\<close>, and those that are not 1.\<close>

definition dims_at :: "nat \<Rightarrow> int list list \<Rightarrow> int list" where
  "dims_at k shapes = map (\<lambda>s. rev s ! k) (filter (\<lambda>s. k < length s) shapes)"

definition non1_at :: "nat \<Rightarrow> int list list \<Rightarrow> int list" where
  "non1_at k shapes = filter (\<lambda>d. d \<noteq> 1) (dims_at k shapes)"

text \<open>
  Shapes are broadcast-compatible when, at every position, the sizes are equal or
  one of them is 1: all the sizes other than 1 agree.
\<close>

definition compatible_at :: "nat \<Rightarrow> int list list \<Rightarrow> bool" where
  "compatible_at k shapes =
     list_all (\<lambda>a. list_all (\<lambda>b. a = b) (non1_at k shapes)) (non1_at k shapes)"

definition np_compatible :: "int list list \<Rightarrow> bool" where
  "np_compatible shapes = list_all (\<lambda>k. compatible_at k shapes) [0..<rank shapes]"

text \<open>
  The broadcast result: at each position the maximum of the sizes other than 1, or
  1 if all sizes there are 1.
\<close>

definition np_dim :: "nat \<Rightarrow> int list list \<Rightarrow> int" where
  "np_dim k shapes = (if non1_at k shapes = [] then 1 else Max (set (non1_at k shapes)))"

definition np_broadcast :: "int list list \<Rightarrow> int list" where
  "np_broadcast shapes = rev (map (\<lambda>k. np_dim k shapes) [0..<rank shapes])"

subsection \<open>The pairwise rule on reversed shapes\<close>

text \<open>
  The rule of \<open>bcast_dim\<close> applied from the trailing dimension on, the longer shape
  keeping its remaining dimensions.
\<close>

fun bzip :: "int list \<Rightarrow> int list \<Rightarrow> int list" where
  "bzip [] ys = ys"
| "bzip xs [] = xs"
| "bzip (a # xs) (b # ys) = bcast_dim a b # bzip xs ys"

subsection \<open>Well-typed shapes\<close>

text \<open>
  An entry is integral when it is an integer or a float with an integral value; a
  string, a nested array and a non-finite float are not.
\<close>

fun integral_entry :: "entry \<Rightarrow> bool" where
  "integral_entry (EInt n) = True"
| "integral_entry (EFloat r) = (of_int \<lfloor>r\<rfloor> = r)"
| "integral_entry ENonFinite = False"
| "integral_entry (ENonNumeric s) = False"
| "integral_entry ENested = False"

definition valid_shape :: "entry list \<Rightarrow> bool" where
  "valid_shape s = list_all integral_entry s"

subsection \<open>Dims and the registry\<close>

text \<open>
  A trailing ellipsis expanded into \<open>n\<close> placeholders \<^verbatim>\<open>None\<close>; dims without a
  trailing ellipsis are left as they are.
\<close>

definition expand_ellipsis :: "dim list \<Rightarrow> int \<Rightarrow> dim list" where
  "expand_ellipsis dims n =
     (if dims \<noteq> [] \<and> last dims = DEllipsis then butlast dims @ replicate (nat n) DNone
      else dims)"

text \<open>The length the registry holds for a dimension, if any.\<close>

fun registry_lookup :: "(string \<rightharpoonup> 'len) \<Rightarrow> dim \<Rightarrow> 'len option" where
  "registry_lookup dim_lengths (DName n) = dim_lengths n"
| "registry_lookup dim_lengths DNone = None"
| "registry_lookup dim_lengths DEllipsis = None"

subsection \<open>The size prefix of a sample shape\<close>

text \<open>
  A shape has the size prefix when its first dimensions are those of \<open>size\<close>;
  stripping removes the prefix from the shapes that have it.
\<close>

definition has_size_prefix :: "int list \<Rightarrow> int list \<Rightarrow> bool" where
  "has_size_prefix sz s = (take (length sz) s = sz)"

definition strip_size :: "int list \<Rightarrow> int list \<Rightarrow> int list" where
  "strip_size sz s = (if has_size_prefix sz s then drop (length sz) s else s)"

text \<open>
  The shapes with singleton dimensions inserted between the size prefix and the
  remainder, up to the rank of \<open>bs\<close>; shapes without the prefix are unchanged.
\<close>

definition padded :: "int list \<Rightarrow> int list \<Rightarrow> int list list \<Rightarrow> int list list" where
  "padded sz bs S = map (\<lambda>s. p_shape sz bs s (strip_size sz s)) S"

section \<open>Properties\<close>

subsection \<open>Slices\<close>

lemma slice_to_nonneg: "0 \<le> k \<Longrightarrow> slice_to k xs = leading k xs"
  by (simp add: slice_to_def leading_def)

lemma slice_to_butlast: "slice_to (- 1) xs = butlast xs"
  by (simp add: slice_to_def butlast_conv_take)

lemma list_ex_butlast: "list_ex (\<lambda>d. d = e) (slice_to (- 1) xs) = ellipsis_before_last e xs"
proof -
  have "(e \<in> set (butlast xs)) = (\<exists>i. i + 1 < length xs \<and> xs ! i = e)"
  proof
    assume "e \<in> set (butlast xs)"
    then obtain i where "i < length (butlast xs)" "butlast xs ! i = e"
      by (auto simp: in_set_conv_nth)
    then have "i + 1 < length xs \<and> xs ! i = e"
      by (simp add: nth_butlast less_diff_conv)
    then show "\<exists>i. i + 1 < length xs \<and> xs ! i = e" ..
  next
    assume "\<exists>i. i + 1 < length xs \<and> xs ! i = e"
    then obtain i where i: "i + 1 < length xs" "xs ! i = e" by blast
    then have "i < length (butlast xs)" "butlast xs ! i = e"
      by (simp_all add: nth_butlast less_diff_conv)
    then show "e \<in> set (butlast xs)" by (metis nth_mem)
  qed
  then show ?thesis by (simp add: list_ex_iff ellipsis_before_last_def slice_to_butlast)
qed

subsection \<open>The loop body on reversed shapes\<close>

lemma bcast_dim_commute: "bcast_dim i j = bcast_dim j i"
  by (simp add: bcast_dim_def)

lemma bzip_Nil2 [simp]: "bzip xs [] = xs"
  by (cases xs) simp_all

lemma bzip_commute: "bzip xs ys = bzip ys xs"
  by (induction xs ys rule: bzip.induct) (simp_all add: bcast_dim_commute)

lemma bzip_append: "length u = length v \<Longrightarrow> bzip (u @ w) v = map2 bcast_dim u v @ w"
  by (induction u v rule: list_induct2) simp_all

lemma length_bzip [simp]: "length (bzip xs ys) = max (length xs) (length ys)"
  by (induction xs ys rule: bzip.induct) simp_all

lemma nth_bzip:
  "k < length xs \<or> k < length ys \<Longrightarrow>
   bzip xs ys ! k =
     (if k < length xs then (if k < length ys then bcast_dim (xs ! k) (ys ! k) else xs ! k)
      else ys ! k)"
proof (induction xs ys arbitrary: k rule: bzip.induct)
  case (1 ys)
  then show ?case by simp
next
  case (2 v va)
  then show ?case by simp
next
  case (3 a xs b ys)
  then show ?case by (cases k) simp_all
qed

lemma rev_bcast_step_ge:
  assumes "length y \<le> length x"
  shows "rev (take (length x - length y) x @ map2 bcast_dim (drop (length x - length y) x) y)
         = bzip (rev x) (rev y)"
proof -
  let ?p = "take (length x - length y) x" and ?q = "drop (length x - length y) x"
  have len: "length ?q = length y" using assms by simp
  have "rev (?p @ map2 bcast_dim ?q y) = map2 bcast_dim (rev ?q) (rev y) @ rev ?p"
    using len by (simp add: rev_map zip_rev)
  also have "\<dots> = bzip (rev ?q @ rev ?p) (rev y)"
    using len by (simp add: bzip_append)
  also have "rev ?q @ rev ?p = rev x"
    by (metis append_take_drop_id rev_append)
  finally show ?thesis .
qed

lemma rev_bcast_step: "rev (bcast_step x y) = bzip (rev x) (rev y)"
proof (cases "length x < length y")
  case True
  then have "bcast_step x y =
      (if 0 < length x
       then take (length y - length x) y @ map2 bcast_dim (drop (length y - length x) y) x
       else y)"
    by (simp add: bcast_step_def)
  then show ?thesis
    using True rev_bcast_step_ge [of x y] by (auto simp: bzip_commute [of "rev x"])
next
  case False
  then have "bcast_step x y =
      (if 0 < length y
       then take (length x - length y) x @ map2 bcast_dim (drop (length x - length y) x) y
       else x)"
    by (simp add: bcast_step_def)
  then show ?thesis
    using False rev_bcast_step_ge [of y x] by auto
qed

lemma length_bcast_step: "length (bcast_step x y) = max (length x) (length y)"
  using length_bzip [of "rev x" "rev y"] by (simp add: rev_bcast_step [symmetric])

lemma all_nonzero_rev: "all_nonzero x \<longleftrightarrow> (\<forall>k < length x. rev x ! k \<noteq> 0)"
proof -
  have "all_nonzero x \<longleftrightarrow> (\<forall>i \<in> set (rev x). i \<noteq> 0)"
    by (simp add: all_nonzero_def list_all_iff)
  also have "\<dots> \<longleftrightarrow> (\<forall>k < length (rev x). rev x ! k \<noteq> 0)"
    by (simp only: all_set_conv_all_nth)
  finally show ?thesis by simp
qed

lemma check_shape_type_ints [simp]: "check_shape_type (map EInt s) = Inr s"
  by (induction s) simp_all

subsection \<open>Rank and positions\<close>

lemma compatible_at_iff:
  "compatible_at k shapes \<longleftrightarrow>
     (\<forall>a \<in> set (non1_at k shapes). \<forall>b \<in> set (non1_at k shapes). a = b)"
  by (simp add: compatible_at_def list_all_iff)

lemma np_compatible_bounded:
  "np_compatible shapes \<longleftrightarrow> (\<forall>k \<in> set [0..<rank shapes]. compatible_at k shapes)"
  by (simp add: np_compatible_def list_all_iff)

lemma fold_max_ge: "fold max ns (m::nat) = max m (fold max ns 0)"
proof (induction ns arbitrary: m)
  case Nil
  then show ?case by simp
next
  case (Cons n ns)
  show ?case using Cons [of "max n m"] Cons [of "max n 0"] by simp
qed

lemma rank_Nil [simp]: "rank [] = 0"
  by (simp add: rank_def)

lemma rank_Cons [simp]: "rank (s # shapes) = max (length s) (rank shapes)"
  using fold_max_ge [of "map length shapes" "length s"] by (simp add: rank_def)

lemma rank_append [simp]: "rank (P @ Q) = max (rank P) (rank Q)"
  by (induction P) simp_all

lemma length_le_rank: "s \<in> set shapes \<Longrightarrow> length s \<le> rank shapes"
  by (induction shapes) auto

lemma dims_at_beyond: "rank shapes \<le> k \<Longrightarrow> dims_at k shapes = []"
proof -
  assume r: "rank shapes \<le> k"
  have "\<not> k < length s" if "s \<in> set shapes" for s
    using length_le_rank [OF that] r by simp
  then show ?thesis by (simp add: dims_at_def filter_empty_conv)
qed

lemma dims_at_append [simp]: "dims_at k (P @ Q) = dims_at k P @ dims_at k Q"
  by (simp add: dims_at_def)

lemma non1_at_append [simp]: "non1_at k (P @ Q) = non1_at k P @ non1_at k Q"
  by (simp add: non1_at_def)

lemma dims_at_single: "dims_at k [y] = (if k < length y then [rev y ! k] else [])"
  by (simp add: dims_at_def)

lemma np_compatible_iff: "np_compatible shapes \<longleftrightarrow> (\<forall>k. compatible_at k shapes)"
proof
  assume c: "np_compatible shapes"
  show "\<forall>k. compatible_at k shapes"
  proof
    fix k
    show "compatible_at k shapes"
    proof (cases "k < rank shapes")
      case True
      with c show ?thesis by (simp add: np_compatible_bounded)
    next
      case False
      then show ?thesis by (simp add: compatible_at_iff non1_at_def dims_at_beyond)
    qed
  qed
next
  assume "\<forall>k. compatible_at k shapes"
  then show "np_compatible shapes" by (simp add: np_compatible_bounded)
qed

lemma incompatible_pair_zero:
  assumes "\<not> np_compatible [a, b]"
  shows "\<not> all_nonzero (bcast_step a b)"
proof -
  from assms obtain k where k: "\<not> compatible_at k [a, b]"
    by (auto simp: np_compatible_iff)
  then obtain u v where uv: "u \<in> set (non1_at k [a, b])" "v \<in> set (non1_at k [a, b])" "u \<noteq> v"
    by (auto simp: compatible_at_iff)
  have both: "k < length a \<and> k < length b \<and> rev a ! k \<noteq> 1 \<and> rev b ! k \<noteq> 1 \<and> rev a ! k \<noteq> rev b ! k"
    using uv by (auto simp: non1_at_def dims_at_def split: if_splits)
  then have "k < length (rev a) \<or> k < length (rev b)" by simp
  from nth_bzip [OF this] both have "bzip (rev a) (rev b) ! k = 0"
    by (simp add: bcast_dim_def)
  then have "rev (bcast_step a b) ! k = 0"
    by (simp add: rev_bcast_step)
  moreover have "k < length (bcast_step a b)"
    using both by (simp add: length_bcast_step less_max_iff_disj)
  ultimately show ?thesis by (auto simp: all_nonzero_rev)
qed

subsection \<open>Checking shapes\<close>

lemma py_int_integral: "of_int (py_int r) = r \<longleftrightarrow> of_int \<lfloor>r\<rfloor> = r"
proof
  assume "of_int (py_int r) = r"
  then show "of_int \<lfloor>r\<rfloor> = r" by (metis floor_of_int)
next
  assume "of_int \<lfloor>r\<rfloor> = r"
  then have "\<lceil>r\<rceil> = \<lfloor>r\<rfloor>" by (metis ceiling_of_int floor_of_int)
  with \<open>of_int \<lfloor>r\<rfloor> = r\<close> show "of_int (py_int r) = r" by (simp add: py_int_def)
qed

lemma check_entry_Inl: "check_entry e = Inl err \<Longrightarrow> err = TypeError"
  by (cases e) (auto simp: Let_def split: if_splits)

lemma check_entry_ok: "(\<exists>n. check_entry e = Inr n) \<longleftrightarrow> integral_entry e"
  by (cases e) (auto simp: Let_def py_int_integral)

lemma check_shape_type_Inl: "check_shape_type s = Inl err \<Longrightarrow> err = TypeError"
  by (induction s) (auto split: sum.splits dest: check_entry_Inl)

lemma check_shape_type_ok: "(\<exists>t. check_shape_type s = Inr t) \<longleftrightarrow> valid_shape s"
proof (induction s)
  case Nil
  then show ?case by (simp add: valid_shape_def)
next
  case (Cons e s)
  show ?case
  proof (cases "check_entry e")
    case (Inl err)
    then have "\<not> integral_entry e" using check_entry_ok [of e] by auto
    with Inl show ?thesis by (simp add: valid_shape_def)
  next
    case (Inr n)
    then have "integral_entry e" using check_entry_ok [of e] by auto
    with Inr Cons show ?thesis by (auto simp: valid_shape_def split: sum.splits)
  qed
qed

lemma check_shape_type_invalid: "\<not> valid_shape s \<Longrightarrow> check_shape_type s = Inl TypeError"
  using check_shape_type_ok [of s] check_shape_type_Inl [of s]
  by (cases "check_shape_type s") auto

lemma broadcast_loop_type_error:
  assumes "\<forall>s \<in> set pre. valid_shape s" and "\<not> valid_shape bad"
  shows "broadcast_loop x (pre @ bad # post) raise_exception =
           (if broadcast_loop x pre False = Inr None
            then (if raise_exception then Inl (ValueError NoBroadcast) else Inr None)
            else Inl TypeError)"
  using assms(1)
proof (induction pre arbitrary: x)
  case Nil
  then show ?case using assms(2) by (simp add: check_shape_type_invalid)
next
  case (Cons s pre)
  then obtain y where y: "check_shape_type s = Inr y"
    using check_shape_type_ok [of s] by auto
  show ?case
  proof (cases "all_nonzero (bcast_step x y)")
    case True
    with y Cons show ?thesis by simp
  next
    case False
    with y show ?thesis by simp
  qed
qed

subsection \<open>Looking up dims\<close>

lemma known_dim_lookup: "known_dim m d \<longleftrightarrow> registry_lookup m d \<noteq> None"
  by (cases d) simp_all

lemma lookup_lengths_known:
  "list_all (known_dim m) ds \<Longrightarrow>
   \<exists>ls. lookup_lengths m ds = Inr ls \<and> map Some ls = map (registry_lookup m) ds"
proof (induction ds)
  case Nil
  then show ?case by simp
next
  case (Cons d ds)
  then show ?case by (cases d) auto
qed

lemma expand_ellipsis_code:
  assumes "DEllipsis \<notin> set (butlast dims)"
  shows "(if DEllipsis \<in> set dims
          then slice_to (- 1) dims @ replicate (nat n) DNone else dims) = expand_ellipsis dims n"
proof (cases "dims = []")
  case True
  then show ?thesis by (simp add: expand_ellipsis_def)
next
  case False
  then have "set dims = insert (last dims) (set (butlast dims))"
    by (metis append_butlast_last_id list.simps(15) rotate1.simps(2) set_rotate1)
  with assms False show ?thesis by (auto simp: expand_ellipsis_def slice_to_butlast)
qed

subsection \<open>The loop computes the NumPy broadcast\<close>

lemma non1_at_single: "non1_at k [y] = (if k < length y \<and> rev y ! k \<noteq> 1 then [rev y ! k] else [])"
  by (simp add: non1_at_def dims_at_single)

lemma np_dim_agree:
  assumes "compatible_at k S" and "a \<in> set (non1_at k S)"
  shows "np_dim k S = a"
proof -
  have "set (non1_at k S) = {a}" using assms by (auto simp: compatible_at_iff)
  moreover have "non1_at k S \<noteq> []" using assms(2) by auto
  ultimately show ?thesis by (simp add: np_dim_def)
qed

lemma np_dim_no_non1: "non1_at k S = [] \<Longrightarrow> np_dim k S = 1"
  by (simp add: np_dim_def)

lemma compatible_at_prefix: "compatible_at k (P @ Q) \<Longrightarrow> compatible_at k P"
  by (auto simp: compatible_at_iff)

lemma np_compatible_prefix: "np_compatible (P @ Q) \<Longrightarrow> np_compatible P"
  by (auto simp: np_compatible_iff dest: compatible_at_prefix)

lemma np_dim_snoc:
  assumes "compatible_at k (P @ [y])" and "k < length y"
  shows "np_dim k (P @ [y]) = bcast_dim (np_dim k P) (rev y ! k)"
proof (cases "rev y ! k = 1")
  case True
  then have "non1_at k (P @ [y]) = non1_at k P" using assms(2) by (simp add: non1_at_single)
  then have "np_dim k (P @ [y]) = np_dim k P" by (simp add: np_dim_def)
  with True show ?thesis by (simp add: bcast_dim_def)
next
  case False
  then have y: "rev y ! k \<in> set (non1_at k (P @ [y]))"
    using assms(2) by (simp add: non1_at_single)
  from np_dim_agree [OF assms(1) y] have 1: "np_dim k (P @ [y]) = rev y ! k" .
  show ?thesis
  proof (cases "non1_at k P = []")
    case True
    then show ?thesis using 1 by (simp add: np_dim_no_non1 bcast_dim_def)
  next
    case False
    then obtain a where a: "a \<in> set (non1_at k P)" by (cases "non1_at k P") auto
    then have "a \<in> set (non1_at k (P @ [y]))" by simp
    with assms(1) y have "a = rev y ! k" by (auto simp: compatible_at_iff)
    moreover have "np_dim k P = a"
      using np_dim_agree [OF compatible_at_prefix [OF assms(1)] a] .
    ultimately show ?thesis using 1 by (simp add: bcast_dim_def)
  qed
qed

lemma np_dim_snoc_short:
  assumes "\<not> k < length y"
  shows "np_dim k (P @ [y]) = np_dim k P"
  using assms by (simp add: np_dim_def non1_at_single)

lemma np_dim_beyond: "rank S \<le> k \<Longrightarrow> np_dim k S = 1"
  by (simp add: np_dim_def non1_at_def dims_at_beyond)

lemma rev_np_broadcast: "rev (np_broadcast S) = map (\<lambda>k. np_dim k S) [0..<rank S]"
  by (simp add: np_broadcast_def)

lemma length_np_broadcast [simp]: "length (np_broadcast S) = rank S"
  by (simp add: np_broadcast_def)

lemma bcast_step_np:
  assumes "np_compatible (P @ [y])"
  shows "bcast_step (np_broadcast P) y = np_broadcast (P @ [y])"
proof -
  have c: "compatible_at k (P @ [y])" for k
    using assms by (simp add: np_compatible_iff)
  let ?l = "bzip (map (\<lambda>k. np_dim k P) [0..<rank P]) (rev y)"
  let ?r = "map (\<lambda>k. np_dim k (P @ [y])) [0..<rank (P @ [y])]"
  have "?l = ?r"
  proof (rule nth_equalityI)
    show "length ?l = length ?r" by simp
  next
    fix k assume "k < length ?l"
    then have k: "k < rank P \<or> k < length y" by (simp add: less_max_iff_disj)
    then have k': "k < length (map (\<lambda>k. np_dim k P) [0..<rank P]) \<or> k < length (rev y)" by simp
    have kr: "k < rank (P @ [y])" using k by (simp add: less_max_iff_disj)
    show "?l ! k = ?r ! k"
    proof (cases "k < length y")
      case True
      note ky = True
      show ?thesis
      proof (cases "k < rank P")
        case True
        then show ?thesis
          using ky kr nth_bzip [OF k'] np_dim_snoc [OF c ky] by simp
      next
        case False
        then have "np_dim k P = 1" by (simp add: np_dim_beyond)
        then have "np_dim k (P @ [y]) = rev y ! k"
          using np_dim_snoc [OF c ky, of ] by (simp add: bcast_dim_def)
        then show ?thesis
          using False ky kr nth_bzip [OF k'] by simp
      qed
    next
      case False
      then have "k < rank P" using k by simp
      then show ?thesis
        using False kr nth_bzip [OF k'] np_dim_snoc_short [OF False] by simp
    qed
  qed
  then have "rev (bcast_step (np_broadcast P) y) = rev (np_broadcast (P @ [y]))"
    by (simp only: rev_bcast_step rev_np_broadcast)
  then show ?thesis by simp
qed

lemma bcast_step_incompatible:
  assumes "np_compatible P" and "\<not> np_compatible (P @ [y])"
  shows "\<not> all_nonzero (bcast_step (np_broadcast P) y)"
proof -
  from assms(2) obtain k where k: "\<not> compatible_at k (P @ [y])"
    by (auto simp: np_compatible_iff)
  have cP: "compatible_at k P" using assms(1) by (simp add: np_compatible_iff)
  from k cP have ky: "k < length y" and y1: "rev y ! k \<noteq> 1"
    by (auto simp: compatible_at_iff non1_at_single split: if_splits)
  from k cP ky y1 obtain a where a: "a \<in> set (non1_at k P)" "a \<noteq> rev y ! k"
    by (auto simp: compatible_at_iff non1_at_single)
  have a1: "a \<noteq> 1" using a(1) by (simp add: non1_at_def)
  have da: "np_dim k P = a" using np_dim_agree [OF cP a(1)] .
  have kP: "k < rank P"
  proof (rule ccontr)
    assume "\<not> k < rank P"
    then have "dims_at k P = []" by (simp add: dims_at_beyond)
    with a(1) show False by (simp add: non1_at_def)
  qed
  have k': "k < length (map (\<lambda>k. np_dim k P) [0..<rank P]) \<or> k < length (rev y)"
    using ky by simp
  have "rev (bcast_step (np_broadcast P) y) ! k = bcast_dim a (rev y ! k)"
    using nth_bzip [OF k'] kP ky da by (simp add: rev_bcast_step rev_np_broadcast)
  also have "\<dots> = 0" using a(2) a1 y1 by (simp add: bcast_dim_def)
  finally have "rev (bcast_step (np_broadcast P) y) ! k = 0" .
  moreover have "k < length (bcast_step (np_broadcast P) y)"
    using ky by (simp add: length_bcast_step less_max_iff_disj)
  ultimately show ?thesis by (auto simp: all_nonzero_rev)
qed

lemma dims_at_entries: "d \<in> set (dims_at k S) \<Longrightarrow> \<exists>s \<in> set S. d \<in> set s"
proof -
  assume "d \<in> set (dims_at k S)"
  then obtain s where s: "s \<in> set S" "k < length s" "d = rev s ! k"
    by (auto simp: dims_at_def)
  then have "d \<in> set (rev s)" by (metis length_rev nth_mem)
  with s(1) show ?thesis by auto
qed

lemma np_dim_nonzero:
  assumes "list_all all_nonzero S"
  shows "np_dim k S \<noteq> 0"
proof (cases "non1_at k S = []")
  case True
  then show ?thesis by (simp add: np_dim_def)
next
  case False
  then have "Max (set (non1_at k S)) \<in> set (non1_at k S)"
    by (intro Max_in) simp_all
  then have "np_dim k S \<in> set (dims_at k S)" using False by (simp add: np_dim_def non1_at_def)
  from dims_at_entries [OF this] obtain s where "s \<in> set S" "np_dim k S \<in> set s" by blast
  with assms show ?thesis by (auto simp: list_all_iff all_nonzero_def)
qed

lemma all_nonzero_np_broadcast: "list_all all_nonzero S \<Longrightarrow> all_nonzero (np_broadcast S)"
  by (simp add: all_nonzero_rev rev_np_broadcast np_dim_nonzero)

lemma np_broadcast_single: "np_broadcast [a] = a"
proof -
  have "np_dim k [a] = rev a ! k" if "k < length a" for k
    using that by (simp add: np_dim_def non1_at_single)
  then have "map (\<lambda>k. np_dim k [a]) [0..<length a] = map (\<lambda>k. rev a ! k) [0..<length (rev a)]"
    by simp
  also have "\<dots> = rev a" by (rule map_nth)
  finally have "rev (np_broadcast [a]) = rev a" by (simp add: rev_np_broadcast)
  then show ?thesis by simp
qed

lemma broadcast_loop_np:
  assumes "np_compatible P" and "list_all all_nonzero (P @ rest)"
  shows "broadcast_loop (np_broadcast P) (map (map EInt) rest) raise_exception =
           (if np_compatible (P @ rest) then Inr (Some (np_broadcast (P @ rest)))
            else if raise_exception then Inl (ValueError NoBroadcast) else Inr None)"
  using assms
proof (induction rest arbitrary: P)
  case Nil
  then show ?case by simp
next
  case (Cons y rest)
  show ?case
  proof (cases "np_compatible (P @ [y])")
    case True
    have nz: "list_all all_nonzero (P @ [y])" using Cons.prems(2) by simp
    have "all_nonzero (bcast_step (np_broadcast P) y)"
      using all_nonzero_np_broadcast [OF nz] by (simp add: bcast_step_np [OF True])
    moreover have "list_all all_nonzero ((P @ [y]) @ rest)" using Cons.prems(2) by simp
    ultimately show ?thesis
      using Cons.IH [OF True, of ] by (simp add: bcast_step_np [OF True])
  next
    case False
    have "\<not> np_compatible (P @ y # rest)"
      using False np_compatible_prefix [of "P @ [y]" rest] by auto
    then show ?thesis
      using bcast_step_incompatible [OF Cons.prems(1) False] by simp
  qed
qed

lemma np_compatible_single: "np_compatible [a]"
  by (simp add: np_compatible_bounded compatible_at_iff non1_at_single)

lemma shapes_broadcasting_np:
  assumes "list_all all_nonzero shapes"
  shows "shapes_broadcasting (map (map EInt) shapes) raise_exception =
           (if np_compatible shapes then Inr (Some (np_broadcast shapes))
            else if raise_exception then Inl (ValueError NoBroadcast) else Inr None)"
proof (cases shapes)
  case Nil
  then show ?thesis
    by (simp add: shapes_broadcasting_def np_broadcast_def np_compatible_bounded)
next
  case (Cons a rest)
  have "list_all all_nonzero ([a] @ rest)" using assms Cons by simp
  from broadcast_loop_np [OF np_compatible_single this, of raise_exception] Cons
  show ?thesis by (simp add: shapes_broadcasting_def np_broadcast_single)
qed

subsection \<open>Size prefixes and inserted dimensions\<close>

lemma sp_shape_strip: "sp_shape sz s = strip_size sz s"
proof -
  have "take (min (length sz) (length s)) s = take (length sz) s"
    by (simp add: min_def)
  then show ?thesis by (auto simp: sp_shape_def strip_size_def has_size_prefix_def)
qed

lemma check_all_ints [simp]: "check_all (map (map EInt) shapes) = Inr shapes"
  by (induction shapes) simp_all

lemma non1_at_Cons: "non1_at k (s # S) = non1_at k [s] @ non1_at k S"
  using non1_at_append [of k "[s]" S] by simp

lemma rank_le: "(\<And>s. s \<in> set S \<Longrightarrow> length s \<le> n) \<Longrightarrow> rank S \<le> n"
  by (induction S) simp_all

lemma rank_eq:
  assumes "\<And>s. s \<in> set S \<Longrightarrow> length s \<le> n" and "t \<in> set S" and "length t = n"
  shows "rank S = n"
  using rank_le [of S n] assms length_le_rank [OF assms(2)] by auto

lemma p_shape_prefixed:
  assumes "has_size_prefix sz s"
  shows "p_shape sz bs s (strip_size sz s) =
           sz @ replicate (length bs - length (strip_size sz s)) 1 @ strip_size sz s"
  using assms by (simp add: p_shape_def strip_size_def has_size_prefix_def)

lemma p_shape_not_prefixed:
  assumes "\<not> has_size_prefix sz s"
  shows "p_shape sz bs s sp = s" "strip_size sz s = s"
  using assms by (auto simp: p_shape_def strip_size_def has_size_prefix_def)

lemma rev_padded_nth:
  assumes "length r \<le> L"
  shows "rev (sz @ replicate (L - length r) 1 @ r) ! k =
           (if k < length r then rev r ! k else if k < L then 1 else rev sz ! (k - L))"
  using assms by (auto simp: nth_append)

lemma length_padded: "length r \<le> L \<Longrightarrow> length (sz @ replicate (L - length r) (1::int) @ r) = length sz + L"
  by simp

lemma non1_at_padded_low:
  assumes "length r \<le> L" and "k < L"
  shows "non1_at k [sz @ replicate (L - length r) 1 @ r] = non1_at k [r]"
  using assms rev_padded_nth [OF assms(1), of sz k]
  by (simp add: non1_at_single del: rev_append rev_replicate)

lemma non1_at_padded_high:
  assumes "length r \<le> L" and "L \<le> k"
  shows "non1_at k [sz @ replicate (L - length r) 1 @ r] =
           (if k - L < length sz \<and> rev sz ! (k - L) \<noteq> 1 then [rev sz ! (k - L)] else [])"
  using assms rev_padded_nth [OF assms(1), of sz k]
  by (auto simp: non1_at_single simp del: rev_append rev_replicate)


lemma map2_padded:
  "map2 (p_shape sz bs) S (map (sp_shape sz) S) = padded sz bs S"
  by (induction S) (simp_all add: padded_def sp_shape_strip)

lemma padded_Cons: "padded sz bs (s # S) = p_shape sz bs s (strip_size sz s) # padded sz bs S"
  by (simp add: padded_def)

lemma non1_at_p_shape_low:
  assumes "length (strip_size sz s) \<le> length bs" and "k < length bs"
  shows "non1_at k [p_shape sz bs s (strip_size sz s)] = non1_at k [strip_size sz s]"
proof (cases "has_size_prefix sz s")
  case True
  then show ?thesis
    using non1_at_padded_low [OF assms] by (simp add: p_shape_prefixed)
next
  case False
  then show ?thesis by (simp add: p_shape_not_prefixed)
qed

lemma non1_at_p_shape_high:
  assumes "length (strip_size sz s) \<le> length bs" and "length bs \<le> k"
  shows "non1_at k [p_shape sz bs s (strip_size sz s)] =
           (if has_size_prefix sz s \<and> k - length bs < length sz \<and> rev sz ! (k - length bs) \<noteq> 1
            then [rev sz ! (k - length bs)] else [])"
proof (cases "has_size_prefix sz s")
  case True
  then show ?thesis
    using non1_at_padded_high [OF assms] by (simp add: p_shape_prefixed)
next
  case False
  then have "\<not> k < length s" using assms by (simp add: p_shape_not_prefixed)
  with False show ?thesis by (simp add: p_shape_not_prefixed non1_at_single)
qed

lemma non1_at_padded_below:
  assumes "\<And>s. s \<in> set S \<Longrightarrow> length (strip_size sz s) \<le> length bs" and "k < length bs"
  shows "non1_at k (padded sz bs S) = non1_at k (map (strip_size sz) S)"
  using assms(1)
proof (induction S)
  case Nil
  then show ?case by (simp add: padded_def)
next
  case (Cons s S)
  have "non1_at k [p_shape sz bs s (strip_size sz s)] = non1_at k [strip_size sz s]"
    using Cons.prems assms(2) by (simp add: non1_at_p_shape_low)
  moreover have "non1_at k (padded sz bs S) = non1_at k (map (strip_size sz) S)"
    using Cons by simp
  ultimately show ?case
    using non1_at_Cons [of k "p_shape sz bs s (strip_size sz s)" "padded sz bs S"]
      non1_at_Cons [of k "strip_size sz s" "map (strip_size sz) S"]
    by (simp add: padded_Cons)
qed

lemma non1_at_padded_above:
  assumes "\<And>s. s \<in> set S \<Longrightarrow> length (strip_size sz s) \<le> length bs" and "length bs \<le> k"
  shows "set (non1_at k (padded sz bs S)) =
           (if list_ex (has_size_prefix sz) S \<and> k - length bs < length sz \<and>
               rev sz ! (k - length bs) \<noteq> 1
            then {rev sz ! (k - length bs)} else {})"
  using assms(1)
proof (induction S)
  case Nil
  then show ?case by (simp add: padded_def non1_at_def dims_at_def)
next
  case (Cons s S)
  have 1: "non1_at k [p_shape sz bs s (strip_size sz s)] =
           (if has_size_prefix sz s \<and> k - length bs < length sz \<and> rev sz ! (k - length bs) \<noteq> 1
            then [rev sz ! (k - length bs)] else [])"
    using Cons.prems assms(2) by (simp add: non1_at_p_shape_high)
  have 2: "set (non1_at k (padded sz bs S)) =
           (if list_ex (has_size_prefix sz) S \<and> k - length bs < length sz \<and>
               rev sz ! (k - length bs) \<noteq> 1
            then {rev sz ! (k - length bs)} else {})"
    using Cons by simp
  have "set (non1_at k (padded sz bs (s # S))) =
          set (non1_at k [p_shape sz bs s (strip_size sz s)]) \<union> set (non1_at k (padded sz bs S))"
    using non1_at_Cons [of k "p_shape sz bs s (strip_size sz s)" "padded sz bs S"]
    by (simp add: padded_Cons)
  then show ?case unfolding 1 2 by auto
qed


lemma padded_no_prefix:
  assumes "\<not> list_ex (has_size_prefix sz) S"
  shows "padded sz bs S = S" "map (strip_size sz) S = S"
proof -
  have "\<not> has_size_prefix sz s" if "s \<in> set S" for s
    using assms that by (auto simp: list_ex_iff)
  then show "padded sz bs S = S" "map (strip_size sz) S = S"
    by (simp_all add: padded_def p_shape_not_prefixed map_idI)
qed

lemma strip_size_nonzero: "all_nonzero s \<Longrightarrow> all_nonzero (strip_size sz s)"
  by (auto simp: strip_size_def all_nonzero_def list_all_iff dest: in_set_dropD)

lemma p_shape_nonzero:
  assumes "all_nonzero s"
  shows "all_nonzero (p_shape sz bs s (strip_size sz s))"
proof (cases "has_size_prefix sz s")
  case True
  then have "s = sz @ strip_size sz s"
    by (simp add: strip_size_def has_size_prefix_def) (metis append_take_drop_id)
  then have "all_nonzero sz" "all_nonzero (strip_size sz s)"
    using assms by (metis all_nonzero_def list_all_append)+
  then show ?thesis
    using True by (auto simp: p_shape_prefixed all_nonzero_def list_all_iff)
next
  case False
  then show ?thesis using assms by (simp add: p_shape_not_prefixed)
qed

lemma padded_nonzero: "list_all all_nonzero S \<Longrightarrow> list_all all_nonzero (padded sz bs S)"
  by (simp add: padded_def list_all_iff p_shape_nonzero)

lemma stripped_nonzero: "list_all all_nonzero S \<Longrightarrow> list_all all_nonzero (map (strip_size sz) S)"
  by (simp add: list_all_iff strip_size_nonzero)

lemma length_p_shape:
  assumes "length (strip_size sz s) \<le> length bs"
  shows "length (p_shape sz bs s (strip_size sz s)) =
           (if has_size_prefix sz s then length sz + length bs else length s)"
  using assms by (simp add: p_shape_prefixed p_shape_not_prefixed)

lemma rank_padded:
  assumes "list_ex (has_size_prefix sz) S"
    and le: "\<And>s. s \<in> set S \<Longrightarrow> length (strip_size sz s) \<le> length bs"
  shows "rank (padded sz bs S) = length bs + length sz"
proof -
  from assms(1) obtain t where t: "t \<in> set S" "has_size_prefix sz t"
    by (auto simp: list_ex_iff)
  have "length p \<le> length bs + length sz" if "p \<in> set (padded sz bs S)" for p
  proof -
    from that obtain s where s: "s \<in> set S" "p = p_shape sz bs s (strip_size sz s)"
      by (auto simp: padded_def)
    show ?thesis
    proof (cases "has_size_prefix sz s")
      case True
      then show ?thesis using s length_p_shape [OF le [OF s(1)]] by simp
    next
      case False
      then show ?thesis
        using s le [OF s(1)] by (simp add: p_shape_not_prefixed)
    qed
  qed
  moreover have "p_shape sz bs t (strip_size sz t) \<in> set (padded sz bs S)"
    using t(1) by (simp add: padded_def)
  moreover have "length (p_shape sz bs t (strip_size sz t)) = length bs + length sz"
    using t(2) length_p_shape [OF le [OF t(1)]] by simp
  ultimately show ?thesis by (rule rank_eq)
qed

lemma padded_compatible:
  assumes le: "\<And>s. s \<in> set S \<Longrightarrow> length (strip_size sz s) \<le> length bs"
    and "np_compatible (map (strip_size sz) S)"
  shows "np_compatible (padded sz bs S)"
  unfolding np_compatible_iff
proof
  fix k
  show "compatible_at k (padded sz bs S)"
  proof (cases "k < length bs")
    case True
    then show ?thesis
      using assms(2) non1_at_padded_below [OF le True]
      by (simp add: np_compatible_iff compatible_at_iff)
  next
    case False
    then have "length bs \<le> k" by simp
    from non1_at_padded_above [OF le this] show ?thesis
      by (auto simp: compatible_at_iff split: if_splits)
  qed
qed

lemma np_dim_padded:
  assumes le: "\<And>s. s \<in> set S \<Longrightarrow> length (strip_size sz s) \<le> length bs"
    and "list_ex (has_size_prefix sz) S"
  shows "np_dim k (padded sz bs S) =
           (if k < length bs then np_dim k (map (strip_size sz) S)
            else if k - length bs < length sz then rev sz ! (k - length bs) else 1)"
proof (cases "k < length bs")
  case True
  then show ?thesis
    using non1_at_padded_below [OF le True] by (simp add: np_dim_def)
next
  case False
  then have "length bs \<le> k" by simp
  from non1_at_padded_above [OF le this] assms(2)
  have "set (non1_at k (padded sz bs S)) =
          (if k - length bs < length sz \<and> rev sz ! (k - length bs) \<noteq> 1
           then {rev sz ! (k - length bs)} else {})"
    by simp
  then show ?thesis using False by (auto simp: np_dim_def split: if_splits)
qed

lemma np_broadcast_padded:
  assumes "list_ex (has_size_prefix sz) S"
  shows "np_broadcast (padded sz (np_broadcast (map (strip_size sz) S)) S) =
           sz @ np_broadcast (map (strip_size sz) S)"
proof -
  let ?sps = "map (strip_size sz) S"
  let ?b = "np_broadcast ?sps"
  have le: "length (strip_size sz s) \<le> length ?b" if "s \<in> set S" for s
    using that length_le_rank [of "strip_size sz s" ?sps] by simp
  have r: "rank (padded sz ?b S) = length ?b + length sz"
    using rank_padded [OF assms le] .
  have "map (\<lambda>k. np_dim k (padded sz ?b S)) [0..<length ?b + length sz] = rev ?b @ rev sz"
  proof (rule nth_equalityI)
    show "length (map (\<lambda>k. np_dim k (padded sz ?b S)) [0..<length ?b + length sz]) =
          length (rev ?b @ rev sz)" by simp
  next
    fix k assume "k < length (map (\<lambda>k. np_dim k (padded sz ?b S)) [0..<length ?b + length sz])"
    then have k: "k < length ?b + length sz" by simp
    show "map (\<lambda>k. np_dim k (padded sz ?b S)) [0..<length ?b + length sz] ! k = (rev ?b @ rev sz) ! k"
    proof (cases "k < length ?b")
      case True
      then have "rev ?b ! k = np_dim k ?sps"
        by (simp add: rev_np_broadcast)
      then show ?thesis
        using True k np_dim_padded [OF le assms, of k] by (simp add: nth_append)
    next
      case False
      then have "k - length ?b < length sz" using k by arith
      then show ?thesis
        using False k np_dim_padded [OF le assms, of k] by (simp add: nth_append)
    qed
  qed
  then have "rev (np_broadcast (padded sz ?b S)) = rev ?b @ rev sz"
    by (simp only: rev_np_broadcast r)
  then show ?thesis by (metis rev_append rev_rev_ident)
qed

lemma broadcast_dist_samples_shape_np:
  assumes "list_all all_nonzero shapes" and "np_compatible (map (strip_size sz) shapes)"
  shows "broadcast_dist_samples_shape (map (map EInt) shapes) (Some sz) =
           Inr (Some ((if list_ex (has_size_prefix sz) shapes then sz else []) @
                      np_broadcast (map (strip_size sz) shapes)))"
proof -
  let ?sps = "map (strip_size sz) shapes"
  let ?b = "np_broadcast ?sps"
  have le: "length (strip_size sz s) \<le> length ?b" if "s \<in> set shapes" for s
    using that length_le_rank [of "strip_size sz s" ?sps] by simp
  have sp: "map (sp_shape sz) shapes = ?sps" by (simp add: sp_shape_strip)
  have 1: "shapes_broadcasting (map (map EInt) ?sps) True = Inr (Some ?b)"
    using shapes_broadcasting_np [OF stripped_nonzero [OF assms(1)], of sz True] assms(2) by simp
  have 2: "shapes_broadcasting (map (map EInt) (padded sz ?b shapes)) True =
             Inr (Some (np_broadcast (padded sz ?b shapes)))"
    using shapes_broadcasting_np [OF padded_nonzero [OF assms(1)], of sz ?b True]
      padded_compatible [OF le assms(2)] by simp
  have 3: "np_broadcast (padded sz ?b shapes) =
             (if list_ex (has_size_prefix sz) shapes then sz else []) @ ?b"
  proof (cases "list_ex (has_size_prefix sz) shapes")
    case True
    then show ?thesis by (simp add: np_broadcast_padded)
  next
    case False
    then show ?thesis by (simp add: padded_no_prefix)
  qed
  have 4: "shapes_broadcasting (map (map EInt) (map (sp_shape sz) shapes)) True = Inr (Some ?b)"
    using 1 by (simp only: sp)
  have "broadcast_dist_samples_shape (map (map EInt) shapes) (Some sz) =
          shapes_broadcasting (map (map EInt) (padded sz ?b shapes)) True"
    unfolding broadcast_dist_samples_shape_def check_all_ints Let_def
    by (simp only: 4 map2_padded option.case sum.case)
  then show ?thesis by (simp only: 2 3)
qed

section \<open>The claims\<close>

text \<open>
  C1. For shapes of non-negative integers that are broadcast-compatible under the
  NumPy rules, \<^verbatim>\<open>shapes_broadcasting\<close> should return the broadcast result. It
  does for shapes without a zero dimension (\<open>shapes_broadcasting_np\<close> above). It
  does not for shapes with one, where the sentinel \<open>0\<close> of the pairwise rule is a
  legitimate size: \<open>(0,)\<close> and \<open>(1,)\<close> are broadcast-compatible with result \<open>(0,)\<close>,
  and \<^verbatim>\<open>shapes_broadcasting\<close> returns \<^verbatim>\<open>None\<close> or raises, although it
  returns the single shape \<open>(0,)\<close> unchanged.
\<close>

theorem shapes_broadcasting_zero_dim:
  "np_compatible [[0], [1]] \<and> np_broadcast [[0], [1]] = [0] \<and>
   shapes_broadcasting [[EInt 0], [EInt 1]] False = Inr None \<and>
   shapes_broadcasting [[EInt 0], [EInt 1]] True = Inl (ValueError NoBroadcast) \<and>
   shapes_broadcasting [[EInt 0]] False = Inr (Some [0])"
proof -
  have "np_compatible [[0], [1]]" by code_simp
  moreover have "np_broadcast [[0], [1]] = [0]" by code_simp
  ultimately show ?thesis
    by (simp add: shapes_broadcasting_def bcast_step_def bcast_dim_def all_nonzero_def)
qed

text \<open>
  C2. With a \<^verbatim>\<open>size\<close>, \<^verbatim>\<open>broadcast_dist_samples_shape\<close> should strip the
  size prefix from the shapes, broadcast the remainders, insert singleton dimensions
  between the prefix and each remainder, and give the size followed by the broadcast
  of the remainders. It does for shapes without a zero dimension, when some shape
  has the prefix (\<open>broadcast_dist_samples_shape_np\<close> above), and on the two examples
  of the claim. It does not for shapes with a zero dimension, by the sentinel \<open>0\<close>
  of \<^verbatim>\<open>shapes_broadcasting\<close>: the remainders \<open>(0,)\<close> and \<open>(1,)\<close> of
  \<open>(100,0)\<close> and \<open>(100,1)\<close> are broadcast-compatible with result \<open>(0,)\<close>, and the
  function raises; with the size \<open>0\<close> the remainders \<open>()\<close> and \<open>(5,)\<close> of \<open>(0,)\<close> and
  \<open>(0,5)\<close> broadcast to \<open>(5,)\<close>, and the last call on \<open>(0,1)\<close> and \<open>(0,5)\<close> raises.
\<close>

theorem broadcast_dist_samples_shape_zero_dim:
  "map (strip_size [100]) [[100, 0], [100, 1]] = [[0], [1]] \<and>
   np_compatible [[0], [1]] \<and> np_broadcast [[0], [1]] = [0] \<and>
   broadcast_dist_samples_shape [[EInt 100, EInt 0], [EInt 100, EInt 1]] (Some [100]) =
     Inl (ValueError CannotBroadcast) \<and>
   map (strip_size [0]) [[0], [0, 5]] = [[], [5]] \<and>
   np_compatible [[], [5]] \<and> np_broadcast [[], [5]] = [5] \<and>
   broadcast_dist_samples_shape [[EInt 0], [EInt 0, EInt 5]] (Some [0]) =
     Inl (ValueError NoBroadcast) \<and>
   broadcast_dist_samples_shape
     [[EInt 100], [EInt 100, EInt 5], [EInt 100, EInt 4, EInt 5]] (Some [100]) =
     Inr (Some [100, 4, 5]) \<and>
   broadcast_dist_samples_shape [[EInt 1], [EInt 5], [EInt 4, EInt 5]] (Some [100]) =
     Inr (Some [4, 5])"
proof -
  have "map (strip_size [100]) [[100, 0], [100, 1]] = [[0], [1]]"
    and "map (strip_size [0]) [[0], [0, 5]] = [[], [5]]"
    by (simp_all add: strip_size_def has_size_prefix_def)
  moreover have "np_compatible [[0], [1]]" and "np_broadcast [[0], [1]] = [0]"
    and "np_compatible [[], [5]]" and "np_broadcast [[], [5]] = [5]"
    by code_simp+
  moreover have
    "broadcast_dist_samples_shape [[EInt 100, EInt 0], [EInt 100, EInt 1]] (Some [100]) =
       Inl (ValueError CannotBroadcast)"
    by (simp add: broadcast_dist_samples_shape_def sp_shape_def p_shape_def
        shapes_broadcasting_def bcast_step_def bcast_dim_def all_nonzero_def)
  moreover have
    "broadcast_dist_samples_shape [[EInt 0], [EInt 0, EInt 5]] (Some [0]) =
       Inl (ValueError NoBroadcast)"
    by (simp add: broadcast_dist_samples_shape_def sp_shape_def p_shape_def
        shapes_broadcasting_def bcast_step_def bcast_dim_def all_nonzero_def)
  moreover have
    "broadcast_dist_samples_shape
       [[EInt 100], [EInt 100, EInt 5], [EInt 100, EInt 4, EInt 5]] (Some [100]) =
       Inr (Some [100, 4, 5])"
    by (simp add: broadcast_dist_samples_shape_def sp_shape_def p_shape_def
        shapes_broadcasting_def bcast_step_def bcast_dim_def all_nonzero_def)
  moreover have
    "broadcast_dist_samples_shape [[EInt 1], [EInt 5], [EInt 4, EInt 5]] (Some [100]) =
       Inr (Some [4, 5])"
    by (simp add: broadcast_dist_samples_shape_def sp_shape_def p_shape_def
        shapes_broadcasting_def bcast_step_def bcast_dim_def all_nonzero_def)
  ultimately show ?thesis by simp
qed

text \<open>
  C3, as amended. For every shape tuple containing no ellipsis and every integer
  \<^verbatim>\<open>ndim_supp\<close> that is at most the length of the shape,
  \<^verbatim>\<open>find_size(shape, size=None, ndim_supp)\<close> returns
  \<^verbatim>\<open>ndim_expected = len(shape)\<close>, \<^verbatim>\<open>ndim_batch = ndim_expected - ndim_supp\<close>
  and \<^verbatim>\<open>create_size\<close> = the leading \<^verbatim>\<open>ndim_batch\<close> elements of the shape.
\<close>

theorem find_size_shape:
  assumes "SEllipsis \<notin> set shape" and "ndim_supp \<le> int (length shape)"
  shows "find_size (Some shape) None (Some ndim_supp) =
           Inr (Some (leading (int (length shape) - ndim_supp) shape),
                Some (int (length shape)),
                Some (int (length shape) - ndim_supp),
                Some ndim_supp)"
  using assms by (simp add: find_size_def Let_def slice_to_nonneg)

text \<open>The example of the claim: \<^verbatim>\<open>find_size(shape=(2,3), size=None, ndim_supp=1)\<close>.\<close>

theorem find_size_shape_witness:
  "SEllipsis \<notin> set [SInt 2, SInt 3] \<and> (1::int) \<le> int (length [SInt 2, SInt 3]) \<and>
   find_size (Some [SInt 2, SInt 3]) None (Some 1) = Inr (Some [SInt 2], Some 2, Some 1, Some 1)"
  using find_size_shape [of "[SInt 2, SInt 3]" 1] by (simp add: leading_def)

text \<open>
  C3 as stated fails for \<^verbatim>\<open>ndim_supp\<close> greater than the length of the shape: for
  the shape \<open>(2,3)\<close> and \<^verbatim>\<open>ndim_supp=3\<close> the batch dimension is \<open>-1\<close>, and the
  slice \<^verbatim>\<open>shape[:-1]\<close> is \<open>(2,)\<close>, not the empty tuple of leading elements.
\<close>

theorem find_size_shape_counterexample:
  "SEllipsis \<notin> set [SInt 2, SInt 3] \<and>
   find_size (Some [SInt 2, SInt 3]) None (Some 3) =
     Inr (Some [SInt 2], Some 2, Some (- 1), Some 3) \<and>
   leading (- 1) [SInt 2, SInt 3] = [] \<and>
   [SInt 2] \<noteq> leading (- 1) [SInt 2, SInt 3]"
  by (simp add: find_size_def slice_to_def leading_def)

text \<open>
  C4, as amended. When \<^verbatim>\<open>find_size\<close> is called with \<^verbatim>\<open>shape=None\<close> and
  \<^verbatim>\<open>size=None\<close>, its outputs \<^verbatim>\<open>create_size\<close>, \<^verbatim>\<open>ndim_expected\<close> and
  \<^verbatim>\<open>ndim_batch\<close> are \<^verbatim>\<open>None\<close>, and the fourth output is \<^verbatim>\<open>ndim_supp\<close>
  as given.
\<close>

theorem find_size_neither:
  "find_size None None ndim_supp = Inr (None, None, None, ndim_supp)"
  by (simp add: find_size_def)

text \<open>
  C4 as stated fails: with \<^verbatim>\<open>ndim_supp=1\<close> the fourth output is \<open>1\<close>, not
  \<^verbatim>\<open>None\<close>.
\<close>

theorem find_size_neither_counterexample:
  "\<not> (\<forall>ndim_supp. find_size None None ndim_supp = Inr (None, None, None, None))"
proof
  assume "\<forall>ndim_supp. find_size None None ndim_supp = Inr (None, None, None, None)"
  then have "find_size None None (Some 1) = Inr (None, None, None, None)" by blast
  then show False by (simp add: find_size_def)
qed

text \<open>
  C5. For every pair of shapes that are not broadcast-compatible, such as \<open>(3,)\<close> and
  \<open>(4,)\<close>, \<^verbatim>\<open>shapes_broadcasting\<close> raises a \<^verbatim>\<open>ValueError\<close> when
  \<^verbatim>\<open>raise_exception\<close> is true and returns \<^verbatim>\<open>None\<close> when it is false.
\<close>

theorem shapes_broadcasting_incompatible_pair:
  assumes "\<not> np_compatible [a, b]"
  shows "shapes_broadcasting [map EInt a, map EInt b] True = Inl (ValueError NoBroadcast) \<and>
         shapes_broadcasting [map EInt a, map EInt b] False = Inr None"
  using incompatible_pair_zero [OF assms] by (simp add: shapes_broadcasting_def)

theorem shapes_broadcasting_incompatible_pair_witness:
  "\<not> np_compatible [[3], [4]] \<and>
   shapes_broadcasting [[EInt 3], [EInt 4]] True = Inl (ValueError NoBroadcast) \<and>
   shapes_broadcasting [[EInt 3], [EInt 4]] False = Inr None"
proof -
  have h: "\<not> np_compatible [[3], [4]]"
    by (simp add: np_compatible_bounded compatible_at_iff non1_at_def dims_at_def)
  show ?thesis using h shapes_broadcasting_incompatible_pair [OF h] by simp
qed

text \<open>
  C6, as amended. When some shape of the argument list holds an entry that is not
  numeric or not integral, and the shapes before the first such shape are valid,
  \<^verbatim>\<open>shapes_broadcasting\<close> raises a \<^verbatim>\<open>TypeError\<close>, whatever the later
  arguments and the flag \<^verbatim>\<open>raise_exception\<close> are, unless the shapes before it
  already fail to broadcast; in that case the result is that failure, \<^verbatim>\<open>None\<close>
  or the \<^verbatim>\<open>ValueError\<close>. Each shape is checked when its turn in the loop comes,
  not before broadcasting begins.
\<close>

theorem shapes_broadcasting_type_error:
  assumes "list_all valid_shape pre" and "\<not> valid_shape bad"
  shows "shapes_broadcasting (pre @ bad # post) raise_exception =
           (if shapes_broadcasting pre False = Inr None
            then (if raise_exception then Inl (ValueError NoBroadcast) else Inr None)
            else Inl TypeError)"
proof (cases pre)
  case Nil
  then show ?thesis
    using assms(2) by (simp add: shapes_broadcasting_def check_shape_type_invalid)
next
  case (Cons a rest)
  then obtain x where x: "check_shape_type a = Inr x"
    using assms(1) check_shape_type_ok [of a] by auto
  have "\<forall>s \<in> set rest. valid_shape s" using assms(1) Cons by (simp add: list_all_iff)
  from broadcast_loop_type_error [OF this assms(2)] x Cons show ?thesis
    by (simp add: shapes_broadcasting_def)
qed

theorem shapes_broadcasting_type_error_witness:
  "list_all valid_shape [[EInt 3], [EInt 1]] \<and> \<not> valid_shape [ENonNumeric ''a''] \<and>
   shapes_broadcasting [[EInt 3], [EInt 1], [ENonNumeric ''a''], [EInt 4]] True = Inl TypeError \<and>
   shapes_broadcasting [[EInt 3], [EInt 1], [ENonNumeric ''a''], [EInt 4]] False = Inl TypeError"
proof -
  have h1: "list_all valid_shape [[EInt 3], [EInt 1]]" by (simp add: valid_shape_def)
  have h2: "\<not> valid_shape [ENonNumeric ''a'']" by (simp add: valid_shape_def)
  have h3: "shapes_broadcasting [[EInt 3], [EInt 1]] False \<noteq> Inr None"
    by (simp add: shapes_broadcasting_def bcast_step_def bcast_dim_def all_nonzero_def)
  show ?thesis
    using h1 h2 h3 shapes_broadcasting_type_error [OF h1 h2, of "[[EInt 4]]" True]
      shapes_broadcasting_type_error [OF h1 h2, of "[[EInt 4]]" False]
    by simp
qed

text \<open>
  C6 as stated fails: the shapes \<open>(3,)\<close> and \<open>(4,)\<close> do not broadcast, so the loop
  ends before the third shape, which holds a string, is checked. The result is
  \<^verbatim>\<open>None\<close>, or the \<^verbatim>\<open>ValueError\<close> when \<^verbatim>\<open>raise_exception\<close> is true, and
  no \<^verbatim>\<open>TypeError\<close>.
\<close>

theorem shapes_broadcasting_type_error_counterexample:
  "\<not> valid_shape [ENonNumeric ''a''] \<and>
   shapes_broadcasting [[EInt 3], [EInt 4], [ENonNumeric ''a'']] False = Inr None \<and>
   shapes_broadcasting [[EInt 3], [EInt 4], [ENonNumeric ''a'']] True =
     Inl (ValueError NoBroadcast)"
  by (simp add: valid_shape_def shapes_broadcasting_def bcast_step_def bcast_dim_def
      all_nonzero_def)

text \<open>
  C7. For a list or tuple, \<^verbatim>\<open>convert_dims\<close> and \<^verbatim>\<open>convert_shape\<close> raise a
  \<^verbatim>\<open>ValueError\<close> exactly when an ellipsis appears in a position that is not the
  final one, and return the tuple otherwise; \<^verbatim>\<open>convert_size\<close> raises a
  \<^verbatim>\<open>ValueError\<close> exactly when an ellipsis appears anywhere.
\<close>

theorem convert_ellipsis:
  "convert_dims (DimsSeq ds) =
     (if ellipsis_before_last DEllipsis ds then Inl (ValueError EllipsisNotLast)
      else Inr (Some ds)) \<and>
   convert_shape (ShapeSeq ss) =
     (if ellipsis_before_last SEllipsis ss then Inl (ValueError EllipsisNotLast)
      else Inr (Some ss)) \<and>
   convert_size (ShapeSeq ss) =
     (if SEllipsis \<in> set ss then Inl (ValueError EllipsisInSize) else Inr (Some ss))"
  by (simp add: convert_dims_def convert_shape_def convert_size_def list_ex_butlast)

text \<open>
  C8, as amended. For every dims tuple whose ellipsis, if any, is in the final
  position, every \<^verbatim>\<open>ndim_implied\<close> that is at most the length of the expanded
  dims, and every registry: \<^verbatim>\<open>resize_from_dims\<close> expands a trailing ellipsis
  into \<^verbatim>\<open>ndim_implied\<close> placeholders \<^verbatim>\<open>None\<close>, and returns
  \<^verbatim>\<open>ndim_resize = len(dims) - ndim_implied\<close> over the expanded dims, the registry
  lengths of the leading \<^verbatim>\<open>ndim_resize\<close> dims and the expanded dims; it raises a
  \<^verbatim>\<open>KeyError\<close> naming the missing dimensions exactly when one of these leading
  dims is absent from the registry.
\<close>

theorem resize_from_dims_spec:
  assumes "DEllipsis \<notin> set (butlast dims)"
    and "ndim_implied \<le> int (length (expand_ellipsis dims ndim_implied))"
  shows "let dims' = expand_ellipsis dims ndim_implied;
             ndim_resize = int (length dims') - ndim_implied;
             resize_dims = leading ndim_resize dims'
         in if list_all (\<lambda>d. registry_lookup dim_lengths d \<noteq> None) resize_dims
            then \<exists>resize_shape.
                   resize_from_dims dims ndim_implied dim_lengths =
                     Inr (ndim_resize, resize_shape, dims') \<and>
                   map Some resize_shape = map (registry_lookup dim_lengths) resize_dims
            else resize_from_dims dims ndim_implied dim_lengths =
                   Inl (KeyError (set (filter (\<lambda>d. registry_lookup dim_lengths d = None)
                                         resize_dims)))"
proof -
  let ?d = "expand_ellipsis dims ndim_implied"
  let ?k = "int (length ?d) - ndim_implied"
  let ?known = "\<lambda>d. registry_lookup dim_lengths d \<noteq> None"
  have kd: "known_dim dim_lengths = ?known"
    by (rule ext) (simp add: known_dim_lookup)
  have k: "0 \<le> ?k" using assms(2) by simp
  have s: "slice_to ?k ?d = leading ?k ?d" using k by (rule slice_to_nonneg)
  have e: "(set (filter (\<lambda>d. \<not> ?known d) (leading ?k ?d)) = {}) =
           list_all ?known (leading ?k ?d)"
    by (auto simp: list_all_iff filter_empty_conv)
  have code: "resize_from_dims dims ndim_implied dim_lengths =
      (if \<not> list_all ?known (leading ?k ?d)
       then Inl (KeyError (set (filter (\<lambda>d. \<not> ?known d) (leading ?k ?d))))
       else (case lookup_lengths dim_lengths (leading ?k ?d) of
               Inl e \<Rightarrow> Inl e
             | Inr resize_shape \<Rightarrow> Inr (?k, resize_shape, ?d)))"
    unfolding resize_from_dims_def expand_ellipsis_code [OF assms(1)] Let_def s kd e ..
  show ?thesis
  proof (cases "list_all ?known (leading ?k ?d)")
    case True
    then have "list_all (known_dim dim_lengths) (leading ?k ?d)" by (simp only: kd)
    from lookup_lengths_known [OF this] obtain ls where
      ls: "lookup_lengths dim_lengths (leading ?k ?d) = Inr ls"
          "map Some ls = map (registry_lookup dim_lengths) (leading ?k ?d)"
      by blast
    have "resize_from_dims dims ndim_implied dim_lengths = Inr (?k, ls, ?d)"
      using True ls(1) by (simp add: code)
    with True ls(2) show ?thesis
      unfolding Let_def by simp
  next
    case False
    then show ?thesis
      unfolding Let_def by (simp add: code)
  qed
qed

theorem resize_from_dims_spec_witness:
  "DEllipsis \<notin> set (butlast [DName ''a'', DEllipsis]) \<and>
   (2::int) \<le> int (length (expand_ellipsis [DName ''a'', DEllipsis] 2)) \<and>
   resize_from_dims [DName ''a'', DEllipsis] 2 [''a'' \<mapsto> (7::int)] =
     Inr (1, [7], [DName ''a'', DNone, DNone]) \<and>
   resize_from_dims [DName ''a'', DEllipsis] 2 (Map.empty :: string \<rightharpoonup> int) =
     Inl (KeyError {DName ''a''})"
proof -
  have h1: "DEllipsis \<notin> set (butlast [DName ''a'', DEllipsis])" by simp
  have h2: "(2::int) \<le> int (length (expand_ellipsis [DName ''a'', DEllipsis] 2))"
    by (simp add: expand_ellipsis_def)
  show ?thesis
    using h1 h2 resize_from_dims_spec [OF h1 h2, of "[''a'' \<mapsto> (7::int)]"]
      resize_from_dims_spec [OF h1 h2, of "Map.empty :: string \<rightharpoonup> int"]
    by (auto simp: expand_ellipsis_def leading_def numeral_2_eq_2 Let_def)
qed

text \<open>
  C8 as stated fails when \<^verbatim>\<open>ndim_implied\<close> exceeds the number of dims: for the
  dims \<open>(a, b)\<close> and \<^verbatim>\<open>ndim_implied=3\<close>, \<^verbatim>\<open>ndim_resize\<close> is \<open>-1\<close>, there are
  no leading dims to resize by, and yet the slice \<^verbatim>\<open>dims[:-1]\<close> makes the resize
  shape the length of \<open>a\<close>.
\<close>

theorem resize_from_dims_counterexample:
  "resize_from_dims [DName ''a'', DName ''b''] 3 [''a'' \<mapsto> (2::int), ''b'' \<mapsto> 5] =
     Inr (- 1, [2], [DName ''a'', DName ''b'']) \<and>
   expand_ellipsis [DName ''a'', DName ''b''] 3 = [DName ''a'', DName ''b''] \<and>
   leading (- 1) [DName ''a'', DName ''b''] = [] \<and>
   map Some [2] \<noteq>
     map (registry_lookup [''a'' \<mapsto> (2::int), ''b'' \<mapsto> 5]) (leading (- 1) [DName ''a'', DName ''b''])"
  by (simp add: resize_from_dims_def slice_to_def expand_ellipsis_def leading_def)

text \<open>
  C9. In \<^verbatim>\<open>maybe_resize\<close>, when \<^verbatim>\<open>shape\<close> is \<^verbatim>\<open>None\<close>, \<^verbatim>\<open>size\<close> is
  given and the dimensionality of the created variable differs from
  \<^verbatim>\<open>ndim_expected\<close>, the only event is one warning holding the expected and the
  actual rank, no error is raised, and the variable is returned as it was: it is
  neither created again nor resized.
\<close>

theorem maybe_resize_size_warning:
  assumes "Some (ndim rv_out) \<noteq> ndim_expected"
  shows "maybe_resize ndim change_rv_size rv_out recreated ndim_expected ndim_batch ndim_supp
           None (Some sz) =
         Inr (rv_out, [Warn (length sz) ndim_supp (ndim rv_out)])"
  using assms by (simp add: maybe_resize_def)

theorem maybe_resize_size_warning_witness:
  "Some ((\<lambda>rv. rv) (3::int)) \<noteq> Some 2 \<and>
   maybe_resize (\<lambda>rv. rv) (\<lambda>rv new_size. rv + int (length new_size)) 3 1
     (Some 2) (Some 2) (Some 0) None (Some [SInt 5, SInt 4]) =
   Inr (3, [Warn 2 (Some 0) 3])"
proof -
  have h: "Some ((\<lambda>rv. rv) (3::int)) \<noteq> Some 2" by simp
  show ?thesis
    using h maybe_resize_size_warning [of "\<lambda>rv. rv" 3 "Some 2", OF h] by simp
qed

text \<open>
  C10. For every shape, size and integer \<^verbatim>\<open>ndim_supp\<close>, \<^verbatim>\<open>find_size\<close>
  returns, and the fourth component of its result is \<^verbatim>\<open>ndim_supp\<close> unchanged;
  this includes a shape with an ellipsis and the case where shape and size are both
  \<^verbatim>\<open>None\<close>. With the default \<^verbatim>\<open>ndim_supp=None\<close> the function either raises
  (the arithmetic on \<^verbatim>\<open>None\<close>) or returns \<^verbatim>\<open>None\<close> there.
\<close>

theorem find_size_ndim_supp:
  "(\<exists>create_size ndim_expected ndim_batch.
      find_size shape size' (Some n) = Inr (create_size, ndim_expected, ndim_batch, Some n)) \<and>
   (case find_size shape size' ndim_supp of
      Inl e \<Rightarrow> ndim_supp = None
    | Inr (create_size, ndim_expected, ndim_batch, supp) \<Rightarrow> supp = ndim_supp)"
  by (auto simp: find_size_def Let_def split: option.splits)

end
